theory Spec2Isabelle
  imports Complex_Main "HOL-Library.AList" "HOL-Library.Multiset" "HOL-Library.Word"
begin

section \<open>Data model of the reassembly tiers\<close>

text \<open>
  Both reassembly classes keep a dictionary of pending entries
  \<^verbatim>\<open>{"tot": int, "chunks": {idx: str}}\<close>.  The inner dictionary is modelled as an
  association list in insertion order whose keys are kept distinct by \<^const>\<open>AList.update\<close>
  (an existing key is overwritten in place, a new key is appended), so that Python's
  \<^verbatim>\<open>len(chunks)\<close> is the length of the list.  The outer dictionary is a map.
\<close>

datatype py_error = KeyError | ValueError | ZeroDivisionError | IOError

type_synonym chunk_map = "(int \<times> string) list"

record entry =
  tot :: int
  chunks :: chunk_map

type_synonym frag_key = "string \<times> int"

type_synonym messages = "frag_key \<rightharpoonup> entry"

text \<open>
  \<^verbatim>\<open>[chunks[i] for i in range(tot)]\<close>: the list of the stored texts at the indices
  \<open>0, \<dots>, tot - 1\<close> (no index at all when \<open>tot \<le> 0\<close>); a missing index raises
  \<^verbatim>\<open>KeyError\<close>, which is the value \<open>None\<close> here.
\<close>

definition py_range :: "int \<Rightarrow> int list" where
  "py_range n = map int [0..<nat n]"

definition ordered_chunks :: "chunk_map \<Rightarrow> int \<Rightarrow> string list option" where
  "ordered_chunks cm n = those (map (map_of cm) (py_range n))"

subsection \<open>\<^verbatim>\<open>MessageReassembler.add_frag\<close>\<close>

text \<open>
  The method mutates \<^verbatim>\<open>self.messages\<close> and returns the payload or \<^verbatim>\<open>None\<close>; the
  model returns the new dictionary together with the outcome.  When the comprehension
  raises \<^verbatim>\<open>KeyError\<close> the mutation made before it stays (the entry is stored with
  the new chunk and the new total) and the exception leaves the method.
\<close>

definition add_frag ::
  "messages \<Rightarrow> string \<Rightarrow> int \<Rightarrow> int \<Rightarrow> int \<Rightarrow> string \<Rightarrow> messages \<times> (py_error + string option)"
where
  "add_frag msgs src seq idx n chunk =
     (let key = (src, seq);
          msg0 = (case msgs key of None \<Rightarrow> \<lparr>tot = n, chunks = []\<rparr> | Some m \<Rightarrow> m);
          msg = msg0\<lparr>tot := n, chunks := AList.update idx chunk (chunks msg0)\<rparr>;
          msgs' = msgs(key \<mapsto> msg)
      in if int (length (chunks msg)) = tot msg
         then (case ordered_chunks (chunks msg) (tot msg) of
                 None \<Rightarrow> (msgs', Inl KeyError)
               | Some ordered \<Rightarrow> (msgs'(key := None), Inr (Some (concat ordered))))
         else (msgs', Inr None))"

text \<open>
  Delivering a list of fragments \<open>(idx, chunk)\<close> that all carry the same key and the
  same total, one call of \<^const>\<open>add_frag\<close> each, collecting what every call returned.
\<close>

fun deliver ::
  "messages \<Rightarrow> string \<Rightarrow> int \<Rightarrow> int \<Rightarrow> (int \<times> string) list
     \<Rightarrow> messages \<times> (py_error + string option) list"
where
  "deliver msgs src seq n [] = (msgs, [])"
| "deliver msgs src seq n ((idx, chunk) # fs) =
     (case add_frag msgs src seq idx n chunk of
        (msgs', r) \<Rightarrow> (case deliver msgs' src seq n fs of (msgs'', rs) \<Rightarrow> (msgs'', r # rs)))"

text \<open>States the reassembler can be in: the empty one and whatever a call leaves behind.\<close>

inductive reachable :: "messages \<Rightarrow> bool" where
  reachable_init: "reachable Map.empty"
| reachable_step: "reachable msgs \<Longrightarrow> reachable (fst (add_frag msgs src seq idx n chunk))"

text \<open>
  A fragment is well formed for a state when its index lies in \<open>[0, n)\<close> and its total
  agrees with the total of the entry pending for its key, if there is one.
\<close>

definition wf_frag :: "messages \<Rightarrow> string \<Rightarrow> int \<Rightarrow> int \<Rightarrow> int \<Rightarrow> bool" where
  "wf_frag msgs src seq idx n \<longleftrightarrow>
     0 \<le> idx \<and> idx < n \<and> (case msgs (src, seq) of None \<Rightarrow> True | Some e \<Rightarrow> tot e = n)"

inductive reachable_wf :: "messages \<Rightarrow> bool" where
  reachable_wf_init: "reachable_wf Map.empty"
| reachable_wf_step:
    "reachable_wf msgs \<Longrightarrow> wf_frag msgs src seq idx n
       \<Longrightarrow> reachable_wf (fst (add_frag msgs src seq idx n chunk))"

definition entry_inv :: "entry \<Rightarrow> bool" where
  "entry_inv e \<longleftrightarrow>
     distinct (map fst (chunks e)) \<and>
     (\<forall>i \<in> fst ` set (chunks e). 0 \<le> i \<and> i < tot e) \<and>
     chunks e \<noteq> [] \<and> int (length (chunks e)) < tot e"

definition state_inv :: "messages \<Rightarrow> bool" where
  "state_inv msgs \<longleftrightarrow> (\<forall>key e. msgs key = Some e \<longrightarrow> entry_inv e)"

text \<open>The chunks stored for a key, none when the key is not pending.\<close>

definition pending_chunks :: "messages \<Rightarrow> frag_key \<Rightarrow> chunk_map" where
  "pending_chunks msgs key = (case msgs key of None \<Rightarrow> [] | Some e \<Rightarrow> chunks e)"

section \<open>Base64, as the standard library computes it\<close>

text \<open>
  \<^verbatim>\<open>base64.b64encode\<close> and \<^verbatim>\<open>base64.b64decode\<close> belong to Python's standard library.
  They are modelled after RFC 4648 and CPython's \<^verbatim>\<open>binascii\<close> module: the encoder maps
  three bytes to four characters of the standard alphabet and pads the last group with
  \<^verbatim>\<open>=\<close>; the decoder is the non-strict one that \<^verbatim>\<open>b64decode(s)\<close> calls by default.
\<close>

type_synonym byte = "8 word"

definition b64_char :: "nat \<Rightarrow> char" where
  "b64_char i =
     (if i < 26 then char_of (65 + i)
      else if i < 52 then char_of (71 + i)
      else if i < 62 then char_of (i - 4)
      else if i = 62 then CHR ''+'' else CHR ''/'')"

definition b64_val :: "char \<Rightarrow> nat option" where
  "b64_val c =
     (let n = (of_char c :: nat) in
      if 65 \<le> n \<and> n \<le> 90 then Some (n - 65)
      else if 97 \<le> n \<and> n \<le> 122 then Some (n - 71)
      else if 48 \<le> n \<and> n \<le> 57 then Some (n + 4)
      else if n = 43 then Some 62
      else if n = 47 then Some 63
      else None)"

fun b64encode :: "byte list \<Rightarrow> string" where
  "b64encode [] = []"
| "b64encode [a] =
     [b64_char (unat a div 4), b64_char ((unat a mod 4) * 16), CHR ''='', CHR ''='']"
| "b64encode [a, b] =
     [b64_char (unat a div 4), b64_char ((unat a mod 4) * 16 + unat b div 16),
      b64_char ((unat b mod 16) * 4), CHR ''='']"
| "b64encode (a # b # c # rest) =
     [b64_char (unat a div 4), b64_char ((unat a mod 4) * 16 + unat b div 16),
      b64_char ((unat b mod 16) * 4 + unat c div 64), b64_char (unat c mod 64)]
     @ b64encode rest"

text \<open>
  \<^verbatim>\<open>binascii.a2b_base64\<close>, non-strict: the state is the position \<open>q\<close> in the current
  group of four, the bits \<open>l\<close> left over from the previous character and the number
  \<open>p\<close> of padding characters seen.  A character outside the alphabet is skipped; a
  \<^verbatim>\<open>=\<close> that completes the padding of a group ends the decoding and ignores what follows;
  input that ends inside a group raises \<^verbatim>\<open>binascii.Error\<close> (the value \<open>None\<close>).
\<close>

fun a2b_base64 :: "nat \<Rightarrow> nat \<Rightarrow> nat \<Rightarrow> string \<Rightarrow> byte list option" where
  "a2b_base64 q l p [] = (if q = 0 then Some [] else None)"
| "a2b_base64 q l p (c # cs) =
     (if c = CHR ''='' then
        (if 2 \<le> q \<and> 4 \<le> q + (p + 1) then Some []
         else a2b_base64 q l (if 2 \<le> q then p + 1 else p) cs)
      else
        (case b64_val c of
           None \<Rightarrow> a2b_base64 q l p cs
         | Some v \<Rightarrow>
             (if q = 0 then a2b_base64 1 v 0 cs
              else if q = 1 then
                map_option (Cons (of_nat (l * 4 + v div 16))) (a2b_base64 2 (v mod 16) 0 cs)
              else if q = 2 then
                map_option (Cons (of_nat (l * 16 + v div 4))) (a2b_base64 3 (v mod 4) 0 cs)
              else
                map_option (Cons (of_nat (l * 64 + v))) (a2b_base64 0 0 0 cs))))"

text \<open>
  \<^verbatim>\<open>b64decode\<close> of a \<^verbatim>\<open>str\<close> first encodes it as ASCII, which raises \<^verbatim>\<open>ValueError\<close>
  on a character above 127; both exceptions are caught by the callers' \<^verbatim>\<open>except Exception\<close>.
\<close>

definition b64decode :: "string \<Rightarrow> byte list option" where
  "b64decode s =
     (if \<exists>c \<in> set s. 128 \<le> (of_char c :: nat) then None else a2b_base64 0 0 0 s)"

section \<open>Strings and paths\<close>

text \<open>\<^verbatim>\<open>s.split(sep, maxsplit)\<close> for a one-character separator.\<close>

fun py_split :: "char \<Rightarrow> nat \<Rightarrow> string \<Rightarrow> string list" where
  "py_split sep 0 s = [s]"
| "py_split sep (Suc n) s =
     (if sep \<in> set s
      then takeWhile (\<lambda>c. c \<noteq> sep) s # py_split sep n (tl (dropWhile (\<lambda>c. c \<noteq> sep) s))
      else [s])"

text \<open>\<^verbatim>\<open>s.startswith(prefix)\<close>.\<close>

definition startswith :: "string \<Rightarrow> string \<Rightarrow> bool" where
  "startswith s pre \<longleftrightarrow> take (length pre) s = pre"

text \<open>
  \<^verbatim>\<open>int(s)\<close> for a decimal string: surrounding white space is stripped, one sign is
  allowed, and single underscores may separate digits.  Anything else raises
  \<^verbatim>\<open>ValueError\<close> (the value \<open>None\<close>).
\<close>

definition is_space :: "char \<Rightarrow> bool" where
  "is_space c \<longleftrightarrow> (let n = (of_char c :: nat) in (9 \<le> n \<and> n \<le> 13) \<or> (28 \<le> n \<and> n \<le> 32))"

definition py_strip :: "string \<Rightarrow> string" where
  "py_strip s = rev (dropWhile is_space (rev (dropWhile is_space s)))"

definition digit_val :: "char \<Rightarrow> nat option" where
  "digit_val c = (let n = (of_char c :: nat) in if 48 \<le> n \<and> n \<le> 57 then Some (n - 48) else None)"

fun int_digits :: "nat \<Rightarrow> bool \<Rightarrow> string \<Rightarrow> nat option" where
  "int_digits acc prev [] = (if prev then Some acc else None)"
| "int_digits acc prev (c # cs) =
     (if c = CHR ''_'' then (if prev then int_digits acc False cs else None)
      else (case digit_val c of
              None \<Rightarrow> None
            | Some d \<Rightarrow> int_digits (acc * 10 + d) True cs))"

definition py_int :: "string \<Rightarrow> int option" where
  "py_int s =
     (case py_strip s of
        [] \<Rightarrow> None
      | c # r \<Rightarrow>
          if c = CHR ''-'' then map_option (\<lambda>n. - int n) (int_digits 0 False r)
          else if c = CHR ''+'' then map_option int (int_digits 0 False r)
          else map_option int (int_digits 0 False (c # r)))"

text \<open>
  \<^verbatim>\<open>Path(fname).name\<close>, \<^verbatim>\<open>.stem\<close> and \<^verbatim>\<open>.suffix\<close> for POSIX paths: the name is the last
  component that is neither empty nor \<^verbatim>\<open>.\<close>; the suffix starts at the last dot of the
  name when that dot is neither its first nor its last character.
\<close>

fun split_on :: "char \<Rightarrow> string \<Rightarrow> string list" where
  "split_on sep [] = [[]]"
| "split_on sep (c # cs) =
     (if c = sep then [] # split_on sep cs
      else (case split_on sep cs of [] \<Rightarrow> [[c]] | x # xs \<Rightarrow> (c # x) # xs))"

definition path_name :: "string \<Rightarrow> string" where
  "path_name p =
     (case filter (\<lambda>x. x \<noteq> [] \<and> x \<noteq> ''.'') (split_on CHR ''/'' p) of
        [] \<Rightarrow> []
      | x # xs \<Rightarrow> last (x # xs))"

definition name_ext :: "string \<Rightarrow> string" where
  "name_ext name = rev (takeWhile (\<lambda>c. c \<noteq> CHR ''.'') (rev name))"

definition has_suffix :: "string \<Rightarrow> bool" where
  "has_suffix name \<longleftrightarrow>
     CHR ''.'' \<in> set name \<and> name_ext name \<noteq> [] \<and> length (name_ext name) + 1 < length name"

definition path_suffix :: "string \<Rightarrow> string" where
  "path_suffix p =
     (let name = path_name p in if has_suffix name then CHR ''.'' # name_ext name else [])"

definition path_stem :: "string \<Rightarrow> string" where
  "path_stem p =
     (let name = path_name p in
      if has_suffix name then take (length name - length (name_ext name) - 1) name else name)"

text \<open>\<^verbatim>\<open>f"{p.stem}_rx{p.suffix}"\<close> and \<^verbatim>\<open>out_dir / stamped\<close>.\<close>

definition stamped :: "string \<Rightarrow> string" where
  "stamped fname = path_stem fname @ ''_rx'' @ path_suffix fname"

definition join_path :: "string \<Rightarrow> string \<Rightarrow> string" where
  "join_path dir name = dir @ ''/'' @ name"

section \<open>The file chunk assembler and the payload router\<close>

text \<open>
  What the receive side prints or logs, one constructor for each message, carrying the
  values the message is formatted from.
\<close>

datatype out_line =
    Info_got_filechunk int int string
  | Error_b64_file string
  | Ok_reassembled nat string
  | Rx_text "byte list"
  | Warn_filechunk_invalid string
  | Warn_file_invalid string
  | Info_received_file string nat
  | Error_b64
  | Ok_wrote nat string
  | Full_payload string
  | Log_msg string string string string string
  | Warn_bad_msg string
  | Warn_bad_frag string
  | Warn_bad_frag_ints string
  | Info_full_payload string int nat
  | Mcu string
  | Error_exception py_error

text \<open>
  The state of the receive pipeline: the two dictionaries of pending entries, the output
  directory, the files on disk (path to content) and the lines printed so far.
\<close>

record rx =
  messages :: messages
  files :: "string \<rightharpoonup> entry"
  out_dir :: string
  disk :: "string \<rightharpoonup> byte list"
  console :: "out_line list"

definition print :: "out_line \<Rightarrow> rx \<Rightarrow> rx" where
  "print l s = s\<lparr>console := console s @ [l]\<rparr>"

text \<open>
  \<^verbatim>\<open>FileChunkAssembler.add_chunk\<close> of \<^verbatim>\<open>lora_transceiver.py\<close>.  The second component is
  the exception that leaves the method, if any: the read-out of a set whose count equals
  the total but which lacks an index raises \<^verbatim>\<open>KeyError\<close> after the entry was updated.
\<close>

definition add_chunk :: "rx \<Rightarrow> string \<Rightarrow> int \<Rightarrow> int \<Rightarrow> string \<Rightarrow> rx \<times> py_error option" where
  "add_chunk s fname idx n b64_chunk =
     (let entry0 = (case files s fname of None \<Rightarrow> \<lparr>tot = n, chunks = []\<rparr> | Some e \<Rightarrow> e);
          entry = entry0\<lparr>tot := n, chunks := AList.update idx b64_chunk (chunks entry0)\<rparr>;
          s1 = print (Info_got_filechunk (idx + 1) n fname) (s\<lparr>files := (files s)(fname \<mapsto> entry)\<rparr>)
      in if int (length (chunks entry)) = tot entry
         then (case ordered_chunks (chunks entry) (tot entry) of
                 None \<Rightarrow> (s1, Some KeyError)
               | Some ordered \<Rightarrow>
                   (let full_b64 = concat ordered;
                        s2 = s1\<lparr>files := (files s1)(fname := None)\<rparr>
                    in case b64decode full_b64 of
                         None \<Rightarrow> (print (Error_b64_file fname) s2, None)
                       | Some raw \<Rightarrow>
                           (let out_path = join_path (out_dir s2) (stamped fname);
                                s3 = print (Ok_reassembled (length raw) out_path)
                                       (s2\<lparr>disk := (disk s2)(out_path \<mapsto> raw)\<rparr>)
                            in if startswith (path_stem fname) ''_tmp_text_to_send''
                               then (print (Rx_text raw) s3, None)
                               else (s3, None))))
         else (s1, None))"

text \<open>
  \<^verbatim>\<open>handle_full_payload\<close> of \<^verbatim>\<open>lora_transceiver.py\<close>: a tuple unpacking of the wrong
  length and a failing \<^verbatim>\<open>int\<close> raise \<^verbatim>\<open>ValueError\<close>, which is caught there.
\<close>

definition handle_full_payload :: "rx \<Rightarrow> string \<Rightarrow> rx \<times> py_error option" where
  "handle_full_payload s payload =
     (if startswith payload ''FILECHUNK:'' then
        (case py_split CHR '':'' 4 payload of
           [_, fname, s_idx, s_tot, b64_chunk] \<Rightarrow>
             (case (py_int s_idx, py_int s_tot) of
                (Some idx, Some n) \<Rightarrow> add_chunk s fname idx n b64_chunk
              | _ \<Rightarrow> (print (Warn_filechunk_invalid (take 200 payload)) s, None))
         | _ \<Rightarrow> (print (Warn_filechunk_invalid (take 200 payload)) s, None))
      else if startswith payload ''FILE:'' then
        (case py_split CHR '':'' 2 payload of
           [_, fname, b64] \<Rightarrow>
             (let s1 = print (Info_received_file fname (length b64)) s
              in case b64decode b64 of
                   None \<Rightarrow> (print Error_b64 s1, None)
                 | Some raw \<Rightarrow>
                     (let out_path = join_path (out_dir s1) (stamped fname)
                      in (print (Ok_wrote (length raw) out_path)
                            (s1\<lparr>disk := (disk s1)(out_path \<mapsto> raw)\<rparr>), None)))
         | _ \<Rightarrow> (print (Warn_file_invalid (take 200 payload)) s, None))
      else (print (Full_payload (take 200 payload)) s, None))"

text \<open>
  The chunking of \<^verbatim>\<open>send_file\<close>:
  \<^verbatim>\<open>[b64[i:i + size] for i in range(0, len(b64), size)]\<close>.  A step of zero makes
  \<^verbatim>\<open>range\<close> raise \<^verbatim>\<open>ValueError\<close>, a negative step gives no chunk at all.
\<close>

function chunk_list :: "nat \<Rightarrow> 'a list \<Rightarrow> 'a list list" where
  "chunk_list sz xs =
     (if sz = 0 \<or> xs = [] then [] else take sz xs # chunk_list sz (drop sz xs))"
  by pat_completeness auto
termination
  by (relation "measure (\<lambda>(sz, xs). length xs)") auto

definition split_chunks :: "int \<Rightarrow> string \<Rightarrow> py_error + string list" where
  "split_chunks sz b64 =
     (if sz = 0 then Inl ValueError
      else if sz < 0 then Inr []
      else Inr (chunk_list (nat sz) b64))"

text \<open>
  Delivering the chunks of one file to the assembler in the order given, each with the
  number of chunks as its total, as the \<^verbatim>\<open>FILECHUNK\<close> lines of one transfer do; the
  delivery stops at the first exception.
\<close>

fun add_chunks :: "rx \<Rightarrow> string \<Rightarrow> int \<Rightarrow> (int \<times> string) list \<Rightarrow> rx \<times> py_error option" where
  "add_chunks s fname n [] = (s, None)"
| "add_chunks s fname n ((idx, chunk) # cs) =
     (case add_chunk s fname idx n chunk of
        (s', Some e) \<Rightarrow> (s', Some e)
      | (s', None) \<Rightarrow> add_chunks s' fname n cs)"

text \<open>\<^verbatim>\<open>enumerate(chunks)\<close>.\<close>

definition enumerate_chunks :: "string list \<Rightarrow> (int \<times> string) list" where
  "enumerate_chunks cs = zip (map int [0..<length cs]) cs"

text \<open>
  The receive pipeline as the constructors leave it: no pending entry in either
  dictionary and nothing printed; the files already on disk are a parameter.
\<close>

definition rx_init :: "string \<Rightarrow> (string \<rightharpoonup> byte list) \<Rightarrow> rx" where
  "rx_init dir fs = \<lparr>messages = Map.empty, files = Map.empty, out_dir = dir, disk = fs, console = []\<rparr>"

text \<open>The chunks stored for a file name, none when the name is not pending.\<close>

definition pending_file_chunks :: "rx \<Rightarrow> string \<Rightarrow> chunk_map" where
  "pending_file_chunks s fname = (case files s fname of None \<Rightarrow> [] | Some e \<Rightarrow> chunks e)"

section \<open>The outbound chunked transfer of \<^verbatim>\<open>lora_transceiver.py\<close>\<close>

text \<open>
  The completion slot of \<^verbatim>\<open>LoRaSerialSession\<close>: the event \<^verbatim>\<open>_tx_event\<close> and the result
  \<^verbatim>\<open>_tx_last\<close> that the reader thread sets in \<^verbatim>\<open>_signal_tx\<close>.
\<close>

record tx_result =
  ok :: bool
  reason :: string

record tx_slot =
  tx_event :: bool
  tx_last :: "tx_result option"

definition signal_tx :: "tx_slot \<Rightarrow> bool \<Rightarrow> string \<Rightarrow> tx_slot" where
  "signal_tx slot b r = slot\<lparr>tx_last := Some \<lparr>ok = b, reason = r\<rparr>, tx_event := True\<rparr>"

text \<open>
  \<^verbatim>\<open>_consume_tx_result\<close>, given the slot as it is when the wait ends: an event that is still
  clear means that the wait timed out; otherwise the stored result is taken and the slot is
  reset for the next chunk.
\<close>

definition consume_tx_result :: "tx_slot \<Rightarrow> tx_slot \<times> tx_result" where
  "consume_tx_result slot =
     (if \<not> tx_event slot then (slot, \<lparr>ok = False, reason = ''timeout waiting for [TX DONE]''\<rparr>)
      else (slot\<lparr>tx_last := None, tx_event := False\<rparr>,
            (case tx_last slot of None \<Rightarrow> \<lparr>ok = False, reason = ''unknown''\<rparr> | Some r \<Rightarrow> r)))"

text \<open>
  What the environment does while one chunk is sent: either the write to the serial port
  raises, or the write succeeds and the reader thread delivers the listed signals
  \<open>(ok, reason)\<close>, in this order, before the wait of that chunk ends (no signal at all
  within the timeout is the empty list).
\<close>

datatype chunk_env = Write_error | Arrivals "(bool \<times> string) list"

text \<open>The line \<^verbatim>\<open>FILECHUNK:<name>:<idx>:<tot>:<chunk>\<close> with its four fields.\<close>

datatype tx_line = Filechunk_line string nat nat string

text \<open>The messages that \<^verbatim>\<open>send_file\<close> hands to \<^verbatim>\<open>_log\<close> in its loop and after it.\<close>

datatype tx_log = Log_sending nat nat nat | Log_chunk_failed nat nat string | Log_all_sent

datatype send_outcome = Returned bool | Raised py_error

record tx_run =
  slot :: tx_slot
  written :: "tx_line list"
  logged :: "tx_log list"
  outcome :: send_outcome

definition next_env :: "chunk_env list \<Rightarrow> chunk_env" where
  "next_env envs = (case envs of [] \<Rightarrow> Arrivals [] | e # _ \<Rightarrow> e)"

text \<open>
  The loop of \<^verbatim>\<open>send_file\<close> over \<^verbatim>\<open>enumerate(chunks)\<close>: write the line, wait for the
  result of this chunk, return \<^verbatim>\<open>False\<close> at the first result that is not ok.  An exception
  raised by the write leaves the method.
\<close>

fun send_loop ::
  "tx_slot \<Rightarrow> string \<Rightarrow> nat \<Rightarrow> (nat \<times> string) list \<Rightarrow> chunk_env list \<Rightarrow> tx_run"
where
  "send_loop sl name n [] envs =
     \<lparr>slot = sl, written = [], logged = [Log_all_sent], outcome = Returned True\<rparr>"
| "send_loop sl name n ((idx, chunk) # rest) envs =
     (case next_env envs of
        Write_error \<Rightarrow>
          \<lparr>slot = sl, written = [], logged = [Log_sending (idx + 1) n (length chunk)],
           outcome = Raised IOError\<rparr>
      | Arrivals sigs \<Rightarrow>
          (let sl1 = fold (\<lambda>(b, r) s. signal_tx s b r) sigs sl;
               (sl2, r) = consume_tx_result sl1
           in if \<not> ok r
              then \<lparr>slot = sl2, written = [Filechunk_line name idx n chunk],
                    logged = [Log_sending (idx + 1) n (length chunk),
                              Log_chunk_failed (idx + 1) n (reason r)],
                    outcome = Returned False\<rparr>
              else (let run = send_loop sl2 name n rest (tl envs)
                    in run\<lparr>written := Filechunk_line name idx n chunk # written run,
                           logged := Log_sending (idx + 1) n (length chunk) # logged run\<rparr>)))"



definition enumerate_nat :: "'a list \<Rightarrow> (nat \<times> 'a) list" where
  "enumerate_nat xs = zip [0..<length xs] xs"

text \<open>
  \<^verbatim>\<open>send_file\<close> after \<^verbatim>\<open>prepare_file_for_lora\<close>, which is outside this model and hands over
  the bytes and the transmit name.
\<close>

definition send_file ::
  "tx_slot \<Rightarrow> byte list \<Rightarrow> string \<Rightarrow> int \<Rightarrow> chunk_env list \<Rightarrow> tx_run" where
  "send_file sl raw tx_name chunk_size_chars envs =
     (case split_chunks chunk_size_chars (b64encode raw) of
        Inl e \<Rightarrow> \<lparr>slot = sl, written = [], logged = [], outcome = Raised e\<rparr>
      | Inr cs \<Rightarrow> send_loop sl tx_name (length cs) (enumerate_nat cs) envs)"

section \<open>The fragmented send path of \<^verbatim>\<open>mesh_network_interface.py\<close>\<close>

text \<open>
  \<^verbatim>\<open>TransmissionStats\<close>.  The counters are Python integers; the times are floats, modelled
  as real numbers, so that \<^verbatim>\<open>x == 0\<close> and the quotients are the exact ones (rounding is
  not modelled).  A reading of \<^verbatim>\<open>time.time()\<close> is a parameter of whatever reads the clock.
\<close>

record transmission_stats =
  total_chunks :: int
  sent_chunks :: int
  failed_chunks :: int
  start_time :: real
  end_time :: real
  total_bytes :: int

definition new_stats :: transmission_stats where
  "new_stats = \<lparr>total_chunks = 0, sent_chunks = 0, failed_chunks = 0,
                start_time = 0, end_time = 0, total_bytes = 0\<rparr>"




text \<open>\<^verbatim>\<open>pat in line\<close> for strings.\<close>

fun contains :: "string \<Rightarrow> string \<Rightarrow> bool" where
  "contains [] pat \<longleftrightarrow> pat = []"
| "contains (c # cs) pat \<longleftrightarrow> startswith (c # cs) pat \<or> contains cs pat"

text \<open>
  The polling loop that waits for one chunk, over the lines that arrive before the
  deadline (each already decoded and stripped): empty lines are skipped, the first line
  with a sentinel decides, and running out of lines is the timeout.
\<close>

datatype wait_result = Completed | Failed | Timeout

fun wait_chunk :: "string list \<Rightarrow> wait_result" where
  "wait_chunk [] = Timeout"
| "wait_chunk (line # ls) =
     (if line = [] then wait_chunk ls
      else if contains line ''[CMD] Send completed'' then Completed
      else if contains line ''[CMD] Send failed'' \<or> contains line ''[TX] Failed'' then Failed
      else wait_chunk ls)"

text \<open>
  For one chunk the environment either makes \<^verbatim>\<open>send_command\<close> fail (the write raises and
  the method returns \<^verbatim>\<open>False\<close>) or delivers the listed lines before the deadline.
\<close>

datatype frag_env = Cmd_error | Lines "string list"

definition next_frag_env :: "frag_env list \<Rightarrow> frag_env" where
  "next_frag_env envs = (case envs of [] \<Rightarrow> Lines [] | e # _ \<Rightarrow> e)"

text \<open>
  The command \<^verbatim>\<open>SEND:<dest>:<reliability>:FRAG:<idx>:<total>:<chunk>\<close>, and whether its write
  went through.
\<close>

datatype mesh_cmd = Send_frag string int nat nat string

datatype attempt = Sent mesh_cmd | Not_sent mesh_cmd

text \<open>
  The test \<^verbatim>\<open>failed_chunks > total_chunks * 0.3\<close> multiplies by the float nearest to 0.3,
  which is a little below 0.3.  The product is rounded to the integer \<open>3k\<close> when the total is
  \<open>10k\<close> and stays strictly between the same two integers as \<open>3 * total / 10\<close> otherwise
  (for every total below \<open>2\<^sup>5\<^sup>0\<close>), so the test agrees with the comparison of integers below.
\<close>

definition too_many_failures :: "int \<Rightarrow> nat \<Rightarrow> bool" where
  "too_many_failures failed n \<longleftrightarrow> 10 * failed > 3 * int n"

text \<open>
  The loop of \<^verbatim>\<open>send_fragmented_data\<close>.  The result is the statistics, the commands
  attempted in order, and whether the loop was left by the early \<^verbatim>\<open>return False\<close>.
\<close>

fun frag_loop ::
  "transmission_stats \<Rightarrow> string \<Rightarrow> int \<Rightarrow> nat \<Rightarrow> (nat \<times> string) list \<Rightarrow> frag_env list
     \<Rightarrow> transmission_stats \<times> attempt list \<times> bool"
where
  "frag_loop st dest rel n [] envs = (st, [], False)"
| "frag_loop st dest rel n ((idx, chunk) # rest) envs =
     (let cmd = Send_frag dest rel idx n chunk in
      case next_frag_env envs of
        Cmd_error \<Rightarrow>
          (case frag_loop (st\<lparr>failed_chunks := failed_chunks st + 1\<rparr>) dest rel n rest (tl envs) of
             (st', atts, aborted) \<Rightarrow> (st', Not_sent cmd # atts, aborted))
      | Lines ls \<Rightarrow>
          (let st1 = (case wait_chunk ls of
                        Completed \<Rightarrow> st\<lparr>sent_chunks := sent_chunks st + 1\<rparr>
                      | Failed \<Rightarrow> st\<lparr>failed_chunks := failed_chunks st + 1\<rparr>
                      | Timeout \<Rightarrow> st);
               success = (wait_chunk ls = Completed);
               st2 = (if \<not> success \<and> failed_chunks st1 = 0
                      then st1\<lparr>failed_chunks := failed_chunks st1 + 1\<rparr> else st1)
           in if too_many_failures (failed_chunks st2) n then (st2, [Sent cmd], True)
              else (case frag_loop st2 dest rel n rest (tl envs) of
                      (st', atts, aborted) \<Rightarrow> (st', Sent cmd # atts, aborted))))"

text \<open>
  \<^verbatim>\<open>send_fragmented_data\<close> with \<^verbatim>\<open>CHUNK_SIZE = 150\<close>; \<open>t0\<close> and \<open>t1\<close> are the readings of the
  clock at the start and at the end.  The result is the statistics, the commands attempted
  and the value returned.
\<close>

definition send_fragmented_data ::
  "string \<Rightarrow> string \<Rightarrow> int \<Rightarrow> real \<Rightarrow> real \<Rightarrow> frag_env list
     \<Rightarrow> transmission_stats \<times> attempt list \<times> bool" where
  "send_fragmented_data dest data rel t0 t1 envs =
     (let cs = chunk_list 150 data;
          st = new_stats\<lparr>total_chunks := int (length cs), total_bytes := int (length data),
                         start_time := t0\<rparr>
      in case frag_loop st dest rel (length cs) (enumerate_nat cs) envs of
           (st', atts, aborted) \<Rightarrow>
             (st'\<lparr>end_time := t1\<rparr>, atts, if aborted then False else failed_chunks st' = 0))"

section \<open>The readers\<close>

subsection \<open>\<^verbatim>\<open>LoRaSerialSession\<close> of \<^verbatim>\<open>lora_transceiver.py\<close>\<close>







subsection \<open>The receiver script \<^verbatim>\<open>rx_receive_file.py\<close>\<close>






subsection \<open>Malformed lines\<close>





definition has_sentinel :: "string \<Rightarrow> bool" where
  "has_sentinel line \<longleftrightarrow>
     contains line ''[TX DONE]'' \<or> contains line ''[ABORT]'' \<or> contains line ''TX FAILED''"



section \<open>The fragment reassembler\<close>

subsection \<open>Auxiliary facts about association lists and the ordered read-out\<close>

lemma length_update:
  "length (AList.update k v al) = (if k \<in> fst ` set al then length al else Suc (length al))"
  by (induct al) auto

lemma those_map_Some:
  "(\<And>x. x \<in> set xs \<Longrightarrow> f x = Some (g x)) \<Longrightarrow> those (map f xs) = Some (map g xs)"
  by (induct xs) auto

lemma ordered_chunks_Some:
  assumes "\<And>i. i < n \<Longrightarrow> map_of cm (int i) = Some (cs ! i)" and "length cs = n"
  shows "ordered_chunks cm (int n) = Some cs"
proof -
  have "those (map (map_of cm) (map int [0..<n])) = Some (map (\<lambda>j. cs ! nat j) (map int [0..<n]))"
    by (rule those_map_Some) (auto simp: assms(1))
  also have "map (\<lambda>j. cs ! nat j) (map int [0..<n]) = cs"
    using assms(2) map_nth [of cs] by (simp add: comp_def)
  finally show ?thesis by (simp add: ordered_chunks_def py_range_def)
qed

lemma add_frag_step:
  assumes "(msgs (src, seq) = None \<and> al = []) \<or> msgs (src, seq) = Some \<lparr>tot = n, chunks = al\<rparr>"
  shows "add_frag msgs src seq idx n c =
     (let cm = AList.update idx c al;
          msgs' = msgs((src, seq) \<mapsto> \<lparr>tot = n, chunks = cm\<rparr>)
      in if int (length cm) = n
         then (case ordered_chunks cm n of
                 None \<Rightarrow> (msgs', Inl KeyError)
               | Some ordered \<Rightarrow> (msgs((src, seq) := None), Inr (Some (concat ordered))))
         else (msgs', Inr None))"
proof -
  from assms consider
    (fresh) "msgs (src, seq) = None" "al = []"
  | (pending) "msgs (src, seq) = Some \<lparr>tot = n, chunks = al\<rparr>" by auto
  then show ?thesis
    by cases (simp_all add: add_frag_def Let_def split: option.splits)
qed

lemma deliver_perm_aux:
  assumes len: "length cs = N"
  shows "(msgs (src, seq) = None \<and> al = []) \<or> msgs (src, seq) = Some \<lparr>tot = int N, chunks = al\<rparr>
    \<Longrightarrow> length al = card A \<Longrightarrow> fst ` set al = int ` A
    \<Longrightarrow> (\<And>i. i \<in> A \<Longrightarrow> map_of al (int i) = Some (cs ! i))
    \<Longrightarrow> distinct p \<Longrightarrow> set p \<inter> A = {} \<Longrightarrow> set p \<union> A = {0..<N} \<Longrightarrow> p \<noteq> []
    \<Longrightarrow> deliver msgs src seq (int N) (map (\<lambda>i. (int i, cs ! i)) p) =
          (msgs((src, seq) := None), replicate (length p - 1) (Inr None) @ [Inr (Some (concat cs))])"
proof (induction p arbitrary: msgs al A)
  case Nil
  then show ?case by simp
next
  case (Cons i p)
  let ?cm = "AList.update (int i) (cs ! i) al"
  let ?e = "\<lparr>tot = int N, chunks = ?cm\<rparr>"
  let ?A = "insert i A"
  have finA: "finite A" using Cons.prems(7) by (metis finite_Un finite_atLeastLessThan)
  have inotA: "i \<notin> A" using Cons.prems(6) by auto
  have inot: "int i \<notin> fst ` set al" using inotA Cons.prems(3) by auto
  have lcm: "length ?cm = card ?A"
    using inot inotA finA Cons.prems(2) by (simp add: length_update)
  have keys: "fst ` set ?cm = int ` ?A"
    using Cons.prems(3) by (simp add: dom_update)
  have look: "map_of ?cm (int j) = Some (cs ! j)" if "j \<in> ?A" for j
    using that Cons.prems(4) by (auto simp: update_conv')
  have sub: "?A \<subseteq> {0..<N}" using Cons.prems(7) by auto
  have step: "add_frag msgs src seq (int i) (int N) (cs ! i) =
     (if length ?cm = N
         then (case ordered_chunks ?cm (int N) of
                 None \<Rightarrow> (msgs((src, seq) \<mapsto> ?e), Inl KeyError)
               | Some ordered \<Rightarrow> (msgs((src, seq) := None), Inr (Some (concat ordered))))
         else (msgs((src, seq) \<mapsto> ?e), Inr None))"
    using add_frag_step [where msgs = msgs and src = src and seq = seq and al = al
        and n = "int N" and idx = "int i" and c = "cs ! i"] Cons.prems(1)
    by (simp add: Let_def)
  show ?case
  proof (cases "p = []")
    case True
    then have "?A = {0..<N}" using Cons.prems(7) by auto
    then have full: "length ?cm = N" using lcm by simp
    have "ordered_chunks ?cm (int N) = Some cs"
      using look \<open>?A = {0..<N}\<close> len by (intro ordered_chunks_Some) auto
    then show ?thesis using True step full by (simp add: fun_eq_iff)
  next
    case False
    then obtain j where j: "j \<in> set p" by (cases p) auto
    then have "j \<notin> ?A" "j < N" using Cons.prems(5,6,7) by auto
    then have "?A \<subset> {0..<N}" using sub by auto
    then have "card ?A < card {0..<N}" by (intro psubset_card_mono) auto
    then have nfull: "length ?cm \<noteq> N" using lcm by simp
    have st: "add_frag msgs src seq (int i) (int N) (cs ! i) = (msgs((src, seq) \<mapsto> ?e), Inr None)"
      using step nfull by simp
    have IH: "deliver (msgs((src, seq) \<mapsto> ?e)) src seq (int N) (map (\<lambda>i. (int i, cs ! i)) p) =
          ((msgs((src, seq) \<mapsto> ?e))((src, seq) := None),
            replicate (length p - 1) (Inr None) @ [Inr (Some (concat cs))])"
    proof (rule Cons.IH [where al = ?cm and A = ?A])
      show "((msgs((src, seq) \<mapsto> ?e)) (src, seq) = None \<and> ?cm = []) \<or>
            (msgs((src, seq) \<mapsto> ?e)) (src, seq) = Some ?e" by simp
      show "length ?cm = card ?A" by (rule lcm)
      show "fst ` set ?cm = int ` ?A" by (rule keys)
      show "\<And>j. j \<in> ?A \<Longrightarrow> map_of ?cm (int j) = Some (cs ! j)" by (rule look)
      show "distinct p" using Cons.prems(5) by simp
      show "set p \<inter> ?A = {}" using Cons.prems(5,6) by auto
      show "set p \<union> ?A = {0..<N}" using Cons.prems(7) by auto
      show "p \<noteq> []" by (rule False)
    qed
    have "length p \<ge> 1" using False by (cases p) auto
    then have rep: "Inr None # replicate (length p - 1) (Inr None) =
       (replicate (length (i # p) - 1) (Inr None) :: (py_error + string option) list)"
      by (cases "length p") auto
    show ?thesis using st IH rep by (simp add: fun_eq_iff)
  qed
qed


lemma add_frag_unfold:
  "add_frag msgs src seq idx n c =
     (let cm = AList.update idx c (pending_chunks msgs (src, seq));
          msgs' = msgs((src, seq) \<mapsto> \<lparr>tot = n, chunks = cm\<rparr>)
      in if int (length cm) = n
         then (case ordered_chunks cm n of
                 None \<Rightarrow> (msgs', Inl KeyError)
               | Some ordered \<Rightarrow> (msgs((src, seq) := None), Inr (Some (concat ordered))))
         else (msgs', Inr None))"
proof (cases "msgs (src, seq)")
  case None
  then show ?thesis
    by (simp add: add_frag_def pending_chunks_def Let_def split: option.splits)
next
  case (Some e)
  then show ?thesis
    by (cases e) (simp add: add_frag_def pending_chunks_def Let_def split: option.splits)
qed

lemma keys_in_range_length:
  assumes "distinct (map fst cm)" and "\<forall>i \<in> fst ` set cm. 0 \<le> i \<and> i < n" and "0 \<le> n"
  shows "int (length cm) \<le> n"
    and "int (length cm) = n \<Longrightarrow> fst ` set cm = {0..<n}"
proof -
  have sub: "fst ` set cm \<subseteq> {0..<n}" using assms(2) by auto
  have len: "length cm = card (fst ` set cm)"
    using assms(1) distinct_card [of "map fst cm"] by simp
  have "card (fst ` set cm) \<le> card {0..<n}" by (intro card_mono sub) simp
  then show "int (length cm) \<le> n" using len assms(3) by simp
  assume "int (length cm) = n"
  then have "card (fst ` set cm) = card {0..<n}" using len by simp
  then show "fst ` set cm = {0..<n}" using sub by (intro card_subset_eq) auto
qed

lemma ordered_chunks_total:
  assumes "fst ` set cm = {0..<n}"
  shows "ordered_chunks cm n \<noteq> None"
proof -
  have "map_of cm x = Some (the (map_of cm x))" if "x \<in> set (py_range n)" for x
  proof -
    from that have "x \<in> {0..<n}" by (auto simp: py_range_def)
    then have "x \<in> fst ` set cm" using assms by simp
    then have "map_of cm x \<noteq> None" by (simp add: map_of_eq_None_iff)
    then show ?thesis by auto
  qed
  then have "those (map (map_of cm) (py_range n)) = Some (map (\<lambda>x. the (map_of cm x)) (py_range n))"
    by (rule those_map_Some)
  then show ?thesis by (simp add: ordered_chunks_def)
qed

lemma wf_step:
  fixes c :: string
  assumes inv: "state_inv msgs" and wf: "wf_frag msgs src seq idx n"
  defines "cm \<equiv> AList.update idx c (pending_chunks msgs (src, seq))"
  shows "distinct (map fst cm)" "\<forall>i \<in> fst ` set cm. 0 \<le> i \<and> i < n" "cm \<noteq> []"
    "int (length cm) \<le> n"
    "int (length cm) = n \<Longrightarrow> ordered_chunks cm n \<noteq> None"
proof -
  have old: "distinct (map fst (pending_chunks msgs (src, seq))) \<and>
      (\<forall>i \<in> fst ` set (pending_chunks msgs (src, seq)). 0 \<le> i \<and> i < n)"
  proof (cases "msgs (src, seq)")
    case None
    then show ?thesis by (simp add: pending_chunks_def)
  next
    case (Some e)
    then have "entry_inv e" "tot e = n" using inv wf by (auto simp: state_inv_def wf_frag_def)
    then show ?thesis using Some by (simp add: pending_chunks_def entry_inv_def)
  qed
  have n0: "0 \<le> n" using wf by (simp add: wf_frag_def)
  show d: "distinct (map fst cm)" using old by (simp add: cm_def distinct_update)
  show r: "\<forall>i \<in> fst ` set cm. 0 \<le> i \<and> i < n"
    using old wf by (auto simp: cm_def dom_update wf_frag_def)
  show "cm \<noteq> []" by (cases "pending_chunks msgs (src, seq)") (auto simp: cm_def)
  show "int (length cm) \<le> n" using keys_in_range_length(1) [OF d r n0] .
  assume "int (length cm) = n"
  then show "ordered_chunks cm n \<noteq> None"
    using keys_in_range_length(2) [OF d r n0] ordered_chunks_total by blast
qed

lemma wf_add_frag:
  assumes inv: "state_inv msgs" and wf: "wf_frag msgs src seq idx n"
  shows "let cm = AList.update idx c (pending_chunks msgs (src, seq)) in
         if int (length cm) = n
         then \<exists>ordered. ordered_chunks cm n = Some ordered \<and>
                add_frag msgs src seq idx n c = (msgs((src, seq) := None), Inr (Some (concat ordered)))
         else add_frag msgs src seq idx n c =
                (msgs((src, seq) \<mapsto> \<lparr>tot = n, chunks = cm\<rparr>), Inr None)"
  using wf_step(5) [OF inv wf, of c]
  by (auto simp: add_frag_unfold [of msgs src seq idx n c] Let_def)

lemma state_inv_step:
  assumes inv: "state_inv msgs" and wf: "wf_frag msgs src seq idx n"
  shows "state_inv (fst (add_frag msgs src seq idx n c))"
proof -
  let ?cm = "AList.update idx c (pending_chunks msgs (src, seq))"
  note s = wf_step [OF inv wf, of c]
  show ?thesis
  proof (cases "int (length ?cm) = n")
    case True
    then have "fst (add_frag msgs src seq idx n c) = msgs((src, seq) := None)"
      using wf_add_frag [OF inv wf, of c] by (auto simp: Let_def)
    then show ?thesis using inv by (auto simp: state_inv_def)
  next
    case False
    then have "fst (add_frag msgs src seq idx n c) = msgs((src, seq) \<mapsto> \<lparr>tot = n, chunks = ?cm\<rparr>)"
      using wf_add_frag [OF inv wf, of c] by (auto simp: Let_def)
    moreover have "entry_inv \<lparr>tot = n, chunks = ?cm\<rparr>"
      using s(1-4) False by (simp add: entry_inv_def)
    ultimately show ?thesis using inv by (auto simp: state_inv_def)
  qed
qed

lemma reachable_wf_state_inv: "reachable_wf msgs \<Longrightarrow> state_inv msgs"
proof (induction rule: reachable_wf.induct)
  case reachable_wf_init
  show ?case by (simp add: state_inv_def)
next
  case (reachable_wf_step msgs src seq idx n chunk)
  then show ?case by (intro state_inv_step)
qed


subsection \<open>Order independence\<close>

text \<open>
  Claim C2.  For a total \<open>N \<ge> 1\<close>, fragment texts \<open>cs = [c\<^sub>0, \<dots>, c\<^sub>N\<^sub>-\<^sub>1]\<close> and a list
  \<open>p\<close> that is a permutation of the indices \<open>0, \<dots>, N - 1\<close>, delivering the fragments
  \<open>(i, c\<^sub>i)\<close> in the order of \<open>p\<close> for one key that is not pending makes every call of
  \<^const>\<open>add_frag\<close> but the last return nothing, makes the last call return
  \<open>c\<^sub>0 @ \<dots> @ c\<^sub>N\<^sub>-\<^sub>1\<close>, and leaves the dictionary as it was before, that is, without
  the key.
\<close>

theorem add_frag_order_independent:
  assumes "1 \<le> N" and "length cs = N" and "mset p = mset [0..<N]"
    and "msgs (src, seq) = None"
  shows "deliver msgs src seq (int N) (map (\<lambda>i. (int i, cs ! i)) p) =
           (msgs, replicate (N - 1) (Inr None) @ [Inr (Some (concat cs))])"
proof -
  have dist: "distinct p"
    using assms(3) by (metis distinct_upt mset_eq_imp_distinct_iff)
  have setp: "set p = {0..<N}"
    using assms(3) by (metis mset_eq_setD set_upt)
  have lenp: "length p = N"
    using assms(3) by (metis length_upt mset_eq_length minus_nat.diff_0)
  have ne: "p \<noteq> []" using lenp assms(1) by auto
  have "deliver msgs src seq (int N) (map (\<lambda>i. (int i, cs ! i)) p) =
          (msgs((src, seq) := None), replicate (length p - 1) (Inr None) @ [Inr (Some (concat cs))])"
  proof (rule deliver_perm_aux [where al = "[]" and A = "{}"])
    show "length cs = N" by (rule assms(2))
    show "(msgs (src, seq) = None \<and> [] = []) \<or> msgs (src, seq) = Some \<lparr>tot = int N, chunks = []\<rparr>"
      using assms(4) by simp
    show "set p \<union> {} = {0..<N}" using setp by simp
  qed (use dist ne in auto)
  moreover have "msgs((src, seq) := None) = msgs" using assms(4) by (auto simp: fun_eq_iff)
  ultimately show ?thesis using lenp by simp
qed

theorem add_frag_order_independent_witness:
  "deliver Map.empty ''N1'' 7 3 [(2, ''ef''), (0, ''ab''), (1, ''cd'')] =
     (Map.empty, [Inr None, Inr None, Inr (Some ''abcdef'')])"
proof -
  have p: "mset [2, 0, Suc 0] = mset [0..<3]" by (simp add: upt_rec numeral_3_eq_3)
  have "deliver Map.empty ''N1'' 7 (int 3) (map (\<lambda>i. (int i, [''ab'', ''cd'', ''ef''] ! i)) [2, 0, Suc 0]) =
     (Map.empty, replicate (3 - 1) (Inr None) @ [Inr (Some (concat [''ab'', ''cd'', ''ef'']))])"
    by (rule add_frag_order_independent [OF _ _ p]) simp_all
  then show ?thesis by (simp add: numeral_2_eq_2)
qed

subsection \<open>The invariant of pending entries\<close>

text \<open>
  Claim C3 as stated fails: \<^const>\<open>add_frag\<close> stores whatever index it is given, so one call
  on the empty reassembler with index 5 of total 3 leaves a pending entry whose stored
  index lies outside \<open>[0, 3)\<close>; and with index 5 of total 1 the number of stored chunks
  equals the total, yet index 0 is missing, the read-out raises \<^verbatim>\<open>KeyError\<close> and the
  entry stays pending.
\<close>

theorem pending_index_out_of_range_counterexample:
  "reachable [(''N1'', 7) \<mapsto> \<lparr>tot = 3, chunks = [(5, ''x'')]\<rparr>]
   \<and> add_frag Map.empty ''N1'' 7 5 3 ''x'' =
       ([(''N1'', 7) \<mapsto> \<lparr>tot = 3, chunks = [(5, ''x'')]\<rparr>], Inr None)
   \<and> add_frag Map.empty ''N1'' 7 5 1 ''x'' =
       ([(''N1'', 7) \<mapsto> \<lparr>tot = 1, chunks = [(5, ''x'')]\<rparr>], Inl KeyError)"
proof -
  have a: "add_frag Map.empty ''N1'' 7 5 3 ''x'' =
       ([(''N1'', 7) \<mapsto> \<lparr>tot = 3, chunks = [(5, ''x'')]\<rparr>], Inr None)"
    by (simp add: add_frag_def)
  have "reachable (fst (add_frag Map.empty ''N1'' 7 5 3 ''x''))"
    by (rule reachable_step [OF reachable_init])
  then have r: "reachable [(''N1'', 7) \<mapsto> \<lparr>tot = 3, chunks = [(5, ''x'')]\<rparr>]"
    by (simp add: a)
  have b: "add_frag Map.empty ''N1'' 7 5 1 ''x'' =
       ([(''N1'', 7) \<mapsto> \<lparr>tot = 1, chunks = [(5, ''x'')]\<rparr>], Inl KeyError)"
    by (simp add: add_frag_def ordered_chunks_def py_range_def)
  from r a b show ?thesis by blast
qed

text \<open>
  Claim C3, amended.  In every state reached from the empty reassembler by well-formed
  fragments (index in \<open>[0, n)\<close>, total equal to the total of the pending entry of the
  key), every pending entry stores indices inside \<open>[0, tot)\<close> and fewer chunks than its
  total.  For a further well-formed fragment, the call completes exactly when the number
  of stored chunks, the new one included, equals the total; it then returns the
  concatenation of the chunks at \<open>0, \<dots>, n - 1\<close> in index order, all of which are stored,
  and removes the entry in the same call; otherwise it returns nothing and keeps the entry.
\<close>

theorem reachable_wf_invariant:
  assumes "reachable_wf msgs"
  shows "(\<forall>key e. msgs key = Some e \<longrightarrow>
            (\<forall>i \<in> fst ` set (chunks e). 0 \<le> i \<and> i < tot e) \<and> int (length (chunks e)) < tot e)
       \<and> (\<forall>src seq idx n c. wf_frag msgs src seq idx n \<longrightarrow>
            (let cm = AList.update idx c (pending_chunks msgs (src, seq)) in
             if int (length cm) = n
             then \<exists>ordered. ordered_chunks cm n = Some ordered \<and>
                    add_frag msgs src seq idx n c =
                      (msgs((src, seq) := None), Inr (Some (concat ordered)))
             else add_frag msgs src seq idx n c =
                    (msgs((src, seq) \<mapsto> \<lparr>tot = n, chunks = cm\<rparr>), Inr None)))"
proof -
  have inv: "state_inv msgs" using assms by (rule reachable_wf_state_inv)
  then have "\<forall>key e. msgs key = Some e \<longrightarrow>
            (\<forall>i \<in> fst ` set (chunks e). 0 \<le> i \<and> i < tot e) \<and> int (length (chunks e)) < tot e"
    by (simp add: state_inv_def entry_inv_def)
  moreover have "\<forall>src seq idx n c. wf_frag msgs src seq idx n \<longrightarrow>
            (let cm = AList.update idx c (pending_chunks msgs (src, seq)) in
             if int (length cm) = n
             then \<exists>ordered. ordered_chunks cm n = Some ordered \<and>
                    add_frag msgs src seq idx n c =
                      (msgs((src, seq) := None), Inr (Some (concat ordered)))
             else add_frag msgs src seq idx n c =
                    (msgs((src, seq) \<mapsto> \<lparr>tot = n, chunks = cm\<rparr>), Inr None))"
    using wf_add_frag [OF inv] by blast
  ultimately show ?thesis by blast
qed



theorem reachable_wf_invariant_witness:
  "reachable_wf [(''N1'', 7) \<mapsto> \<lparr>tot = 2, chunks = [(0, ''ab'')]\<rparr>]
   \<and> fst ` set [(0::int, ''ab'')] = {0} \<and> int (length [(0::int, ''ab'')]) < 2
   \<and> wf_frag [(''N1'', 7) \<mapsto> \<lparr>tot = 2, chunks = [(0, ''ab'')]\<rparr>] ''N1'' 7 1 2
   \<and> add_frag [(''N1'', 7) \<mapsto> \<lparr>tot = 2, chunks = [(0, ''ab'')]\<rparr>] ''N1'' 7 1 2 ''cd'' =
       (Map.empty, Inr (Some ''abcd''))"
proof -
  let ?m = "[(''N1'', 7::int) \<mapsto> \<lparr>tot = 2, chunks = [(0, ''ab'')]\<rparr>]"
  have "wf_frag Map.empty ''N1'' 7 0 2" by (simp add: wf_frag_def)
  from reachable_wf_step [OF reachable_wf_init this, of "''ab''"]
  have r: "reachable_wf ?m" by (simp add: add_frag_def)
  have w: "wf_frag ?m ''N1'' 7 1 2" by (simp add: wf_frag_def)
  note inv = reachable_wf_invariant [OF r]
  from inv have "(\<forall>i \<in> fst ` set [(0::int, ''ab'')]. 0 \<le> i \<and> i < 2) \<and> int (length [(0::int, ''ab'')]) < 2"
    by simp
  then have 1: "fst ` set [(0::int, ''ab'')] = {0} \<and> int (length [(0::int, ''ab'')]) < 2"
    by simp
  from inv w have "let cm = AList.update 1 ''cd'' (pending_chunks ?m (''N1'', 7)) in
             if int (length cm) = 2
             then \<exists>ordered. ordered_chunks cm 2 = Some ordered \<and>
                    add_frag ?m ''N1'' 7 1 2 ''cd'' =
                      (?m((''N1'', 7) := None), Inr (Some (concat ordered)))
             else add_frag ?m ''N1'' 7 1 2 ''cd'' =
                    (?m((''N1'', 7) \<mapsto> \<lparr>tot = 2, chunks = cm\<rparr>), Inr None)"
    by blast
  then have 2: "add_frag ?m ''N1'' 7 1 2 ''cd'' = (Map.empty, Inr (Some ''abcd''))"
    by (auto simp: pending_chunks_def ordered_chunks_def py_range_def Let_def upt_rec numeral_2_eq_2)
  show ?thesis using r 1 w 2 by blast
qed

subsection \<open>Duplicate indices\<close>

text \<open>
  Claim C9 as stated fails: \<^const>\<open>add_frag\<close> assigns the total of every fragment it is
  given to the entry, so a fragment that repeats a stored index with another total changes
  the completion threshold.  With index 0 of total 3 pending, repeating index 0 with total 1
  completes the set and emits the text of the duplicate alone.
\<close>

theorem duplicate_other_total_counterexample:
  "snd (add_frag Map.empty ''N1'' 7 0 3 ''a'') = Inr None
   \<and> add_frag (fst (add_frag Map.empty ''N1'' 7 0 3 ''a'')) ''N1'' 7 0 1 ''b'' =
       (Map.empty, Inr (Some ''b''))"
  by (simp add: add_frag_def ordered_chunks_def py_range_def)

text \<open>
  Claim C9, amended.  For a pending entry that is incomplete (the number of stored chunks
  differs from its total) and an index that is stored in it, delivering that index again
  with the same total as the entry stores the new text at that index, returns nothing
  and keeps the entry pending with the same total, the same indices in the same order and
  the same number of chunks; the texts at the other indices stay as they were.
\<close>

theorem duplicate_index_same_total:
  assumes "msgs (src, seq) = Some e" and "idx \<in> fst ` set (chunks e)"
    and "int (length (chunks e)) \<noteq> tot e"
  shows "add_frag msgs src seq idx (tot e) c =
           (msgs((src, seq) \<mapsto> e\<lparr>chunks := AList.update idx c (chunks e)\<rparr>), Inr None)
       \<and> map_of (AList.update idx c (chunks e)) = (map_of (chunks e))(idx \<mapsto> c)
       \<and> map fst (AList.update idx c (chunks e)) = map fst (chunks e)
       \<and> length (AList.update idx c (chunks e)) = length (chunks e)"
proof -
  have len: "length (AList.update idx c (chunks e)) = length (chunks e)"
    using assms(2) by (simp add: length_update)
  have keys: "map fst (AList.update idx c (chunks e)) = map fst (chunks e)"
    using assms(2) by (simp add: update_keys)
  have "add_frag msgs src seq idx (tot e) c =
           (msgs((src, seq) \<mapsto> e\<lparr>chunks := AList.update idx c (chunks e)\<rparr>), Inr None)"
    using assms(1,3) len by (simp add: add_frag_def Let_def)
  then show ?thesis using len keys by (simp add: update_conv')
qed

theorem duplicate_index_same_total_witness:
  "add_frag [(''N1'', 7) \<mapsto> \<lparr>tot = 3, chunks = [(0, ''a''), (2, ''c'')]\<rparr>] ''N1'' 7 2 3 ''z'' =
     ([(''N1'', 7) \<mapsto> \<lparr>tot = 3, chunks = [(0, ''a''), (2, ''z'')]\<rparr>], Inr None)"
proof -
  let ?e = "\<lparr>tot = 3, chunks = [(0::int, ''a''), (2, ''c'')]\<rparr>"
  have "add_frag [(''N1'', 7) \<mapsto> ?e] ''N1'' 7 2 (tot ?e) ''z'' =
           ([(''N1'', 7) \<mapsto> ?e]((''N1'', 7) \<mapsto> ?e\<lparr>chunks := AList.update 2 ''z'' (chunks ?e)\<rparr>), Inr None)"
    using duplicate_index_same_total [of "[(''N1'', 7) \<mapsto> ?e]" "''N1''" 7 ?e 2 "''z''"] by simp
  then show ?thesis by simp
qed

section \<open>Base64 round trip\<close>

lemma b64_val_char: "i < 64 \<Longrightarrow> b64_val (b64_char i) = Some i"
  by (auto simp: b64_val_def b64_char_def Let_def)

lemma b64_char_code: "i < 64 \<Longrightarrow> (of_char (b64_char i) :: nat) < 128 \<and> (of_char (b64_char i) :: nat) \<noteq> 61"
  by (auto simp: b64_char_def)

lemma b64_char_not_pad: "i < 64 \<Longrightarrow> b64_char i \<noteq> CHR ''=''"
proof
  assume "i < 64" and "b64_char i = CHR ''=''"
  then have "(of_char (b64_char i) :: nat) = 61" by simp
  with \<open>i < 64\<close> show False using b64_char_code by blast
qed

lemma a2b_data:
  assumes "i < 64"
  shows "a2b_base64 q l p (b64_char i # cs) =
     (if q = 0 then a2b_base64 1 i 0 cs
      else if q = 1 then map_option (Cons (of_nat (l * 4 + i div 16))) (a2b_base64 2 (i mod 16) 0 cs)
      else if q = 2 then map_option (Cons (of_nat (l * 16 + i div 4))) (a2b_base64 3 (i mod 4) 0 cs)
      else map_option (Cons (of_nat (l * 64 + i))) (a2b_base64 0 0 0 cs))"
  using b64_val_char [OF assms] b64_char_not_pad [OF assms] by simp



lemma sextet_b1: "(x::nat) < 256 \<Longrightarrow> x div 4 < 64" by simp
lemma sextet_b2: "(y::nat) < 256 \<Longrightarrow> (x::nat) mod 4 * 16 + y div 16 < 64"
proof -
  assume "y < 256"
  then have "y div 16 < 16" by simp
  moreover have "x mod 4 < 4" by simp
  ultimately show ?thesis by linarith
qed
lemma sextet_b3: "(y::nat) < 256 \<Longrightarrow> (x::nat) mod 16 * 4 + y div 64 < 64"
proof -
  assume "y < 256"
  then have "y div 64 < 4" by simp
  moreover have "x mod 16 < 16" by simp
  ultimately show ?thesis by linarith
qed
lemma sextet_b4: "(x::nat) mod 4 * 16 < 64" "(x::nat) mod 16 * 4 < 64"
proof -
  have "x mod 4 < 4" "x mod 16 < 16" by simp_all
  then show "(x::nat) mod 4 * 16 < 64" "(x::nat) mod 16 * 4 < 64" by linarith+
qed



lemma sextet_k1: "(y::nat) < 256 \<Longrightarrow> y div 16 div 16 = 0" "(y::nat) < 256 \<Longrightarrow> y div 64 div 4 = 0"
  "(y::nat) < 256 \<Longrightarrow> y div 16 mod 16 = y div 16" "(y::nat) < 256 \<Longrightarrow> y div 64 mod 4 = y div 64"
  by (simp_all add: div_mult2_eq [symmetric])

lemma a2b_pad:
  "a2b_base64 q l p (CHR ''='' # cs) =
     (if 2 \<le> q \<and> 4 \<le> q + (p + 1) then Some []
      else a2b_base64 q l (if 2 \<le> q then p + 1 else p) cs)"
  by simp

lemma unat_byte_less: "unat (a :: byte) < 256"
  using unsigned_less [of a, where ?'a = nat] by simp

lemma a2b_group3:
  fixes a b c :: byte
  shows "a2b_base64 0 l p (b64encode [a, b, c] @ cs) =
           map_option (\<lambda>r. a # b # c # r) (a2b_base64 0 0 0 cs)"
proof -
  note lt = unat_byte_less [of a] unat_byte_less [of b] unat_byte_less [of c]
  have v0: "unat a div 4 < 64" using lt by (simp add: sextet_b1)
  have v1: "unat a mod 4 * 16 + unat b div 16 < 64" using lt by (simp add: sextet_b2)
  have v2: "unat b mod 16 * 4 + unat c div 64 < 64" using lt by (simp add: sextet_b3)
  have v3: "unat c mod 64 < 64" by simp
  show ?thesis
    using lt
    by (simp add: a2b_data [OF v0] a2b_data [OF v1] a2b_data [OF v2] a2b_data [OF v3]
        sextet_k1 option.map_comp comp_def del: a2b_base64.simps(2))
qed

lemma a2b_group1:
  fixes a :: byte
  shows "a2b_base64 0 l p (b64encode [a]) = Some [a]"
proof -
  have v0: "unat a div 4 < 64" using unat_byte_less [of a] by (simp add: sextet_b1)
  have v1: "unat a mod 4 * 16 < 64" by (rule sextet_b4)
  show ?thesis
    using unat_byte_less [of a]
    by (simp add: a2b_data [OF v0] a2b_data [OF v1] a2b_pad sextet_k1 del: a2b_base64.simps(2))
qed

lemma a2b_group2:
  fixes a b :: byte
  shows "a2b_base64 0 l p (b64encode [a, b]) = Some [a, b]"
proof -
  note lt = unat_byte_less [of a] unat_byte_less [of b]
  have v0: "unat a div 4 < 64" using lt by (simp add: sextet_b1)
  have v1: "unat a mod 4 * 16 + unat b div 16 < 64" using lt by (simp add: sextet_b2)
  have v2: "unat b mod 16 * 4 < 64" by (rule sextet_b4)
  show ?thesis
    using lt
    by (simp add: a2b_data [OF v0] a2b_data [OF v1] a2b_data [OF v2] a2b_pad sextet_k1
        del: a2b_base64.simps(2))
qed

lemma a2b_b64encode: "a2b_base64 0 0 0 (b64encode bs) = Some bs"
proof (induction bs rule: b64encode.induct)
  case 1
  show ?case by simp
next
  case (2 a)
  show ?case by (rule a2b_group1)
next
  case (3 a b)
  show ?case by (rule a2b_group2)
next
  case (4 a b c rest)
  have "b64encode (a # b # c # rest) = b64encode [a, b, c] @ b64encode rest" by simp
  then show ?case using 4 by (simp only: a2b_group3) simp
qed

lemma b64encode_ascii: "c \<in> set (b64encode bs) \<Longrightarrow> (of_char c :: nat) < 128"
proof (induction bs arbitrary: c rule: b64encode.induct)
  case 1
  then show ?case by simp
next
  case (2 a)
  have "unat a div 4 < 64" using unat_byte_less [of a] by (simp add: sextet_b1)
  moreover have "unat a mod 4 * 16 < 64" by (rule sextet_b4)
  ultimately show ?case using 2 b64_char_code by auto
next
  case (3 a b)
  note lt = unat_byte_less [of a] unat_byte_less [of b]
  have "unat a div 4 < 64" using lt by (simp add: sextet_b1)
  moreover have "unat a mod 4 * 16 + unat b div 16 < 64" using lt by (simp add: sextet_b2)
  moreover have "unat b mod 16 * 4 < 64" by (rule sextet_b4)
  ultimately show ?case using 3 b64_char_code by auto
next
  case (4 a b c' rest)
  note lt = unat_byte_less [of a] unat_byte_less [of b] unat_byte_less [of c']
  have "unat a div 4 < 64" using lt by (simp add: sextet_b1)
  moreover have "unat a mod 4 * 16 + unat b div 16 < 64" using lt by (simp add: sextet_b2)
  moreover have "unat b mod 16 * 4 + unat c' div 64 < 64" using lt by (simp add: sextet_b3)
  moreover have "unat c' mod 64 < 64" by simp
  ultimately show ?case using 4 b64_char_code by auto
qed

lemma b64decode_b64encode: "b64decode (b64encode bs) = Some bs"
proof -
  have "\<forall>c \<in> set (b64encode bs). \<not> 128 \<le> (of_char c :: nat)"
    using b64encode_ascii [of _ bs] by (simp add: not_le)
  then show ?thesis by (simp add: b64decode_def a2b_b64encode)
qed


section \<open>The file chunk assembler\<close>

subsection \<open>Chunking and in-order delivery\<close>

declare chunk_list.simps [simp del]

lemma chunk_list_Nil [simp]: "chunk_list sz [] = []"
  by (simp add: chunk_list.simps)

lemma chunk_list_Cons:
  "0 < sz \<Longrightarrow> xs \<noteq> [] \<Longrightarrow> chunk_list sz xs = take sz xs # chunk_list sz (drop sz xs)"
  by (subst chunk_list.simps) simp

lemma concat_chunk_list: "0 < sz \<Longrightarrow> concat (chunk_list sz xs) = xs"
proof (induction sz xs rule: chunk_list.induct)
  case (1 sz xs)
  show ?case
  proof (cases "xs = []")
    case True
    then show ?thesis by simp
  next
    case False
    then show ?thesis using 1 by (simp add: chunk_list_Cons)
  qed
qed

lemma chunk_list_eq_Nil: "0 < sz \<Longrightarrow> chunk_list sz xs = [] \<longleftrightarrow> xs = []"
  by (cases "xs = []") (simp_all add: chunk_list_Cons)

lemma b64encode_eq_Nil: "b64encode bs = [] \<longleftrightarrow> bs = []"
  by (induction bs rule: b64encode.induct) simp_all

lemma update_fresh: "k \<notin> fst ` set al \<Longrightarrow> AList.update k v al = al @ [(k, v)]"
  by (induct al) auto

lemma zip_upt_Suc:
  assumes "k < length cs"
  shows "AList.update (int k) (cs ! k) (zip (map int [0..<k]) (take k cs)) =
           zip (map int [0..<Suc k]) (take (Suc k) cs)"
proof -
  have "int k \<notin> fst ` set (zip (map int [0..<k]) (take k cs))"
    by (auto dest!: set_zip_leftD)
  then have "AList.update (int k) (cs ! k) (zip (map int [0..<k]) (take k cs)) =
      zip (map int [0..<k]) (take k cs) @ [(int k, cs ! k)]"
    by (rule update_fresh)
  also have "\<dots> = zip (map int [0..<Suc k]) (take (Suc k) cs)"
    using assms by (simp add: take_Suc_conv_app_nth)
  finally show ?thesis .
qed

lemma ordered_chunks_zip:
  "ordered_chunks (zip (map int [0..<length cs]) cs) (int (length cs)) = Some cs"
proof (rule ordered_chunks_Some)
  fix i assume i: "i < length cs"
  have "map_of (zip (map int [0..<length cs]) cs) (map int [0..<length cs] ! i) = Some (cs ! i)"
    by (rule map_of_zip_nth) (use i in \<open>auto simp: distinct_map\<close>)
  then show "map_of (zip (map int [0..<length cs]) cs) (int i) = Some (cs ! i)"
    using i by simp
qed simp

lemma add_chunk_step:
  assumes "(files s fname = None \<and> al = []) \<or> files s fname = Some \<lparr>tot = n, chunks = al\<rparr>"
  shows "add_chunk s fname idx n c =
     (let cm = AList.update idx c al;
          s1 = print (Info_got_filechunk (idx + 1) n fname)
                 (s\<lparr>files := (files s)(fname \<mapsto> \<lparr>tot = n, chunks = cm\<rparr>)\<rparr>)
      in if int (length cm) = n
         then (case ordered_chunks cm n of
                 None \<Rightarrow> (s1, Some KeyError)
               | Some ordered \<Rightarrow>
                   (let s2 = s1\<lparr>files := (files s1)(fname := None)\<rparr>
                    in case b64decode (concat ordered) of
                         None \<Rightarrow> (print (Error_b64_file fname) s2, None)
                       | Some raw \<Rightarrow>
                           (let out_path = join_path (out_dir s2) (stamped fname);
                                s3 = print (Ok_reassembled (length raw) out_path)
                                       (s2\<lparr>disk := (disk s2)(out_path \<mapsto> raw)\<rparr>)
                            in if startswith (path_stem fname) ''_tmp_text_to_send''
                               then (print (Rx_text raw) s3, None)
                               else (s3, None))))
         else (s1, None))"
proof -
  from assms consider
    (fresh) "files s fname = None" "al = []"
  | (pending) "files s fname = Some \<lparr>tot = n, chunks = al\<rparr>" by auto
  then show ?thesis
    by cases (simp_all add: add_chunk_def Let_def split: option.splits)
qed


lemma enumerate_chunks_drop:
  assumes "k < length cs"
  shows "drop k (enumerate_chunks cs) = (int k, cs ! k) # drop (Suc k) (enumerate_chunks cs)"
proof -
  have "k < length (enumerate_chunks cs)" using assms by (simp add: enumerate_chunks_def)
  moreover have "enumerate_chunks cs ! k = (int k, cs ! k)"
    using assms by (simp add: enumerate_chunks_def)
  ultimately show ?thesis by (metis Cons_nth_drop_Suc)
qed

lemma add_chunks_in_order_aux:
  fixes s :: rx and cs :: "string list" and fname :: string
  defines "n \<equiv> length cs"
  defines "info \<equiv> \<lambda>i. Info_got_filechunk (int i + 1) (int (length cs)) fname"
  defines "path \<equiv> join_path (out_dir s) (stamped fname)"
  defines "st \<equiv> \<lambda>k. s\<lparr>files := (files s)(fname :=
                       (if k = 0 then None
                        else Some \<lparr>tot = int (length cs), chunks = zip (map int [0..<k]) (take k cs)\<rparr>)),
                     console := console s @ map info [0..<k]\<rparr>"
  assumes dec: "b64decode (concat cs) = Some raw" and fresh: "files s fname = None"
  shows "k < n \<Longrightarrow>
     add_chunks (st k) fname (int n) (drop k (enumerate_chunks cs)) =
       (s\<lparr>disk := (disk s)(path \<mapsto> raw),
          console := console s @ map info [0..<n] @
            Ok_reassembled (length raw) path #
            (if startswith (path_stem fname) ''_tmp_text_to_send'' then [Rx_text raw] else [])\<rparr>,
        None)"
proof (induction "n - k" arbitrary: k)
  case 0
  then show ?case by simp
next
  case (Suc d)
  let ?al = "zip (map int [0..<k]) (take k cs)"
  let ?cm = "zip (map int [0..<Suc k]) (take (Suc k) cs)"
  have k: "k < length cs" using Suc.prems by (simp add: n_def)
  have pre: "(files (st k) fname = None \<and> ?al = []) \<or>
      files (st k) fname = Some \<lparr>tot = int n, chunks = ?al\<rparr>"
    by (cases "k = 0") (simp_all add: st_def n_def)
  have cm: "AList.update (int k) (cs ! k) ?al = ?cm" using k by (rule zip_upt_Suc)
  have lcm: "length ?cm = Suc k" using k by simp
  have s1: "print (Info_got_filechunk (int k + 1) (int n) fname)
              ((st k)\<lparr>files := (files (st k))(fname \<mapsto> \<lparr>tot = int n, chunks = ?cm\<rparr>)\<rparr>) = st (Suc k)"
    by (simp add: st_def print_def info_def n_def)
  have step: "add_chunk (st k) fname (int k) (int n) (cs ! k) =
     (if Suc k = n
         then (case ordered_chunks ?cm (int n) of
                 None \<Rightarrow> (st (Suc k), Some KeyError)
               | Some ordered \<Rightarrow>
                   (let s2 = (st (Suc k))\<lparr>files := (files (st (Suc k)))(fname := None)\<rparr>
                    in case b64decode (concat ordered) of
                         None \<Rightarrow> (print (Error_b64_file fname) s2, None)
                       | Some raw \<Rightarrow>
                           (let out_path = join_path (out_dir s2) (stamped fname);
                                s3 = print (Ok_reassembled (length raw) out_path)
                                       (s2\<lparr>disk := (disk s2)(out_path \<mapsto> raw)\<rparr>)
                            in if startswith (path_stem fname) ''_tmp_text_to_send''
                               then (print (Rx_text raw) s3, None)
                               else (s3, None))))
         else (st (Suc k), None))"
    unfolding add_chunk_step [where al = ?al, OF pre] cm Let_def s1 using lcm by simp
  show ?case
  proof (cases "Suc k = n")
    case True
    then have full: "?cm = zip (map int [0..<length cs]) cs" by (simp add: n_def)
    have oc: "ordered_chunks (zip (map int [0..<n]) (take n cs)) (int n) = Some cs"
      by (simp add: n_def ordered_chunks_zip)
    have dr: "drop (Suc k) (enumerate_chunks cs) = []"
      using True by (simp add: enumerate_chunks_def n_def)
    have fr: "(files s)(fname := None) = files s" using fresh by (auto simp: fun_eq_iff)
    have "add_chunk (st k) fname (int k) (int n) (cs ! k) =
       (s\<lparr>disk := (disk s)(path \<mapsto> raw),
          console := console s @ map info [0..<n] @
            Ok_reassembled (length raw) path #
            (if startswith (path_stem fname) ''_tmp_text_to_send'' then [Rx_text raw] else [])\<rparr>,
        None)"
      apply (subst step)
      using True by (simp add: oc dec Let_def st_def print_def path_def fr)
    then show ?thesis by (simp add: enumerate_chunks_drop [OF k] dr)
  next
    case False
    then have lt: "Suc k < n" using Suc.prems by simp
    have d: "d = n - Suc k" using Suc.hyps(2) by simp
    have "add_chunk (st k) fname (int k) (int n) (cs ! k) = (st (Suc k), None)"
      using False by (simp add: step)
    then show ?thesis using Suc.hyps(1) [OF d lt] by (simp add: enumerate_chunks_drop [OF k])
  qed
qed

lemma add_chunks_in_order:
  assumes "cs \<noteq> []" and "b64decode (concat cs) = Some raw" and "files s fname = None"
  shows "add_chunks s fname (int (length cs)) (enumerate_chunks cs) =
       (s\<lparr>disk := (disk s)(join_path (out_dir s) (stamped fname) \<mapsto> raw),
          console := console s
            @ map (\<lambda>i. Info_got_filechunk (int i + 1) (int (length cs)) fname) [0..<length cs]
            @ Ok_reassembled (length raw) (join_path (out_dir s) (stamped fname)) #
              (if startswith (path_stem fname) ''_tmp_text_to_send'' then [Rx_text raw] else [])\<rparr>,
        None)"
proof -
  have fr: "(files s)(fname := None) = files s" using assms(3) by (auto simp: fun_eq_iff)
  have s0: "s\<lparr>files := (files s)(fname := (if (0::nat) = 0 then None else Some \<lparr>tot = int (length cs),
              chunks = zip (map int [0..<0]) (take 0 cs)\<rparr>)),
            console := console s @ map (\<lambda>i. Info_got_filechunk (int i + 1) (int (length cs)) fname) [0..<0]\<rparr> = s"
    by (simp add: fr)
  have "0 < length cs" using assms(1) by simp
  from add_chunks_in_order_aux [OF assms(2,3) this] show ?thesis
    unfolding s0 by simp
qed


subsection \<open>Facts used by the statements below\<close>

lemma add_chunk_unfold:
  "add_chunk s fname idx n c =
     (let cm = AList.update idx c (pending_file_chunks s fname);
          s1 = print (Info_got_filechunk (idx + 1) n fname)
                 (s\<lparr>files := (files s)(fname \<mapsto> \<lparr>tot = n, chunks = cm\<rparr>)\<rparr>)
      in if int (length cm) = n
         then (case ordered_chunks cm n of
                 None \<Rightarrow> (s1, Some KeyError)
               | Some ordered \<Rightarrow>
                   (let s2 = s1\<lparr>files := (files s1)(fname := None)\<rparr>
                    in case b64decode (concat ordered) of
                         None \<Rightarrow> (print (Error_b64_file fname) s2, None)
                       | Some raw \<Rightarrow>
                           (let out_path = join_path (out_dir s2) (stamped fname);
                                s3 = print (Ok_reassembled (length raw) out_path)
                                       (s2\<lparr>disk := (disk s2)(out_path \<mapsto> raw)\<rparr>)
                            in if startswith (path_stem fname) ''_tmp_text_to_send''
                               then (print (Rx_text raw) s3, None)
                               else (s3, None))))
         else (s1, None))"
proof (cases "files s fname")
  case None
  then show ?thesis
    using add_chunk_step [of s fname "[]" n idx c] by (simp add: pending_file_chunks_def)
next
  case (Some e)
  then have "files s fname = Some \<lparr>tot = tot e, chunks = chunks e\<rparr>" by simp
  then show ?thesis
    using Some by (cases e) (simp add: add_chunk_def pending_file_chunks_def Let_def split: option.splits)
qed

lemma hello_b64: "b64encode [72, 101, 108, 108, 111] = ''SGVsbG8=''"
  by code_simp

lemma hello_chunks: "chunk_list 4 ''SGVsbG8='' = [''SGVs'', ''bG8='']"
  by (simp add: chunk_list_Cons)

lemma test_txt_stamped: "stamped ''test.txt'' = ''test_rx.txt''"
  by code_simp

lemma hi_decode: "b64decode ''SGk='' = Some [72, 105]" by code_simp
lemma hey_decode: "b64decode ''SGV5'' = Some [72, 101, 121]" by code_simp
lemma a_txt_stamped: "stamped ''a.txt'' = ''a_rx.txt''" by code_simp
lemma a_txt_tmp: "startswith (path_stem ''a.txt'') ''_tmp_text_to_send'' = False" by code_simp

lemma file_not_filechunk: "startswith payload ''FILE:'' \<Longrightarrow> \<not> startswith payload ''FILECHUNK:''"
proof
  assume a: "startswith payload ''FILE:''" and b: "startswith payload ''FILECHUNK:''"
  have l: "length ''FILECHUNK:'' = 10" by simp
  from b have "take 10 payload = ''FILECHUNK:''" unfolding startswith_def l .
  then have "take 5 (take 10 payload) = take 5 ''FILECHUNK:''" by (rule arg_cong)
  then have "take 5 payload = ''FILEC''" by simp
  moreover have l5: "length ''FILE:'' = 5" by simp
  moreover from a have "take 5 payload = ''FILE:''" unfolding startswith_def l5 .
  ultimately show False by simp
qed

lemma handle_full_payload_file:
  assumes "startswith payload ''FILE:''" and "py_split CHR '':'' 2 payload = [tag, fname, b64]"
    and "b64decode b64 = Some raw"
  shows "handle_full_payload s payload =
           (s\<lparr>disk := (disk s)(join_path (out_dir s) (stamped fname) \<mapsto> raw),
              console := console s @ [Info_received_file fname (length b64),
                 Ok_wrote (length raw) (join_path (out_dir s) (stamped fname))]\<rparr>, None)"
  using assms file_not_filechunk [OF assms(1)]
  by (simp add: handle_full_payload_def Let_def print_def)

subsection \<open>Round trip through base64, chunking and reassembly\<close>

text \<open>
  Claim C1.  For every payload \<open>P\<close> and every chunk size \<open>S > 0\<close> (in particular 1, 7
  and 40000), the base64 text of \<open>P\<close> splits into consecutive chunks of \<open>S\<close> characters
  whose concatenation decodes to exactly \<open>P\<close>.  When \<open>P\<close> is not empty there is at least
  one chunk, and delivering chunk \<open>i\<close> of the total to the chunk assembler, for a file name
  that is not pending, ends with the decoded bytes \<open>P\<close> written to
  \<^verbatim>\<open>out_dir/<stem>_rx<suffix>\<close>, one line printed for each chunk and one for the file, and
  no entry left pending.  (The empty payload has the empty base64 text and no chunk, so
  nothing is delivered.)  The witness is the transfer of the bytes \<^verbatim>\<open>Hello\<close> as the chunks
  \<^verbatim>\<open>SGVs\<close> and \<^verbatim>\<open>bG8=\<close> of \<^verbatim>\<open>test.txt\<close>, which writes \<^verbatim>\<open>test_rx.txt\<close>.
\<close>

theorem base64_chunk_round_trip:
  assumes "0 < S" and "files s fname = None"
  shows "split_chunks S (b64encode P) = Inr (chunk_list (nat S) (b64encode P))
       \<and> b64decode (concat (chunk_list (nat S) (b64encode P))) = Some P
       \<and> (P \<noteq> [] \<longrightarrow>
            (let cs = chunk_list (nat S) (b64encode P);
                 out_path = join_path (out_dir s) (stamped fname)
             in add_chunks s fname (int (length cs)) (enumerate_chunks cs) =
                  (s\<lparr>disk := (disk s)(out_path \<mapsto> P),
                     console := console s
                       @ map (\<lambda>i. Info_got_filechunk (int i + 1) (int (length cs)) fname) [0..<length cs]
                       @ Ok_reassembled (length P) out_path #
                         (if startswith (path_stem fname) ''_tmp_text_to_send'' then [Rx_text P] else [])\<rparr>,
                   None)))"
proof -
  let ?cs = "chunk_list (nat S) (b64encode P)"
  have S: "0 < nat S" using assms(1) by simp
  have split: "split_chunks S (b64encode P) = Inr ?cs"
    using assms(1) by (simp add: split_chunks_def)
  have cat: "concat ?cs = b64encode P" using S by (rule concat_chunk_list)
  have dec: "b64decode (concat ?cs) = Some P" by (simp add: cat b64decode_b64encode)
  have "P \<noteq> [] \<Longrightarrow> ?cs \<noteq> []"
    using S by (simp add: chunk_list_eq_Nil b64encode_eq_Nil)
  then show ?thesis
    using split dec add_chunks_in_order [OF _ dec assms(2)] by (simp add: Let_def)
qed

theorem base64_chunk_round_trip_witness:
  "add_chunks (rx_init ''received_files'' Map.empty) ''test.txt'' 2 [(0, ''SGVs''), (1, ''bG8='')] =
     (\<lparr>messages = Map.empty, files = Map.empty, out_dir = ''received_files'',
        disk = [''received_files/test_rx.txt'' \<mapsto> [72, 101, 108, 108, 111]],
        console = [Info_got_filechunk 1 2 ''test.txt'', Info_got_filechunk 2 2 ''test.txt'',
                   Ok_reassembled 5 ''received_files/test_rx.txt'']\<rparr>, None)"
proof -
  have f: "files (rx_init ''received_files'' Map.empty) ''test.txt'' = None"
    by (simp add: rx_init_def)
  have st: "startswith (path_stem ''test.txt'') ''_tmp_text_to_send'' = False"
    by code_simp
  have up: "[0..<2] = [0, Suc 0]" by (simp add: upt_rec numeral_2_eq_2)
  from base64_chunk_round_trip [of 4, OF _ f, of "[72, 101, 108, 108, 111]"]
  show ?thesis
    by (simp add: hello_b64 hello_chunks test_txt_stamped enumerate_chunks_def Let_def
        join_path_def rx_init_def st up del: b64encode.simps)
qed

subsection \<open>A decode failure discards the assembly\<close>

text \<open>
  Claim C8.  When the chunk that is being added makes the number of stored chunks equal
  to the total, every index below the total is stored, and the concatenation in index
  order does not decode, then \<^const>\<open>add_chunk\<close> removes the pending entry, prints the line
  for the chunk and the decode error, and leaves the disk exactly as it was.
\<close>

theorem decode_failure_discards:
  assumes "int (length (AList.update idx c (pending_file_chunks s fname))) = n"
    and "ordered_chunks (AList.update idx c (pending_file_chunks s fname)) n = Some ordered"
    and "b64decode (concat ordered) = None"
  shows "add_chunk s fname idx n c =
           (s\<lparr>files := (files s)(fname := None),
              console := console s @ [Info_got_filechunk (idx + 1) n fname, Error_b64_file fname]\<rparr>,
            None)"
  using assms by (simp add: add_chunk_unfold Let_def print_def)

theorem decode_failure_discards_witness:
  "add_chunk (rx_init ''received_files'' Map.empty) ''bad.bin'' 0 1 ''A'' =
     (\<lparr>messages = Map.empty, files = Map.empty, out_dir = ''received_files'', disk = Map.empty,
        console = [Info_got_filechunk 1 1 ''bad.bin'', Error_b64_file ''bad.bin'']\<rparr>, None)"
proof -
  let ?s = "rx_init ''received_files'' Map.empty"
  have p: "pending_file_chunks ?s ''bad.bin'' = []"
    by (simp add: pending_file_chunks_def rx_init_def)
  have 1: "int (length (AList.update 0 ''A'' (pending_file_chunks ?s ''bad.bin''))) = 1"
    by (simp add: p)
  have 2: "ordered_chunks (AList.update 0 ''A'' (pending_file_chunks ?s ''bad.bin'')) 1 = Some [''A'']"
    by (simp add: p ordered_chunks_def py_range_def)
  have 3: "b64decode (concat [''A'']) = None" by code_simp
  from decode_failure_discards [OF 1 2 3] show ?thesis by (simp add: rx_init_def)
qed

subsection \<open>The name of the persisted file\<close>

text \<open>
  Claim C4 as stated fails for the assembler and the one-shot path of
  \<^verbatim>\<open>lora_transceiver.py\<close>: the output name is computed from the transmitted name alone
  and written with \<^verbatim>\<open>write_bytes\<close>, with no look at the disk.  Two completed transfers of
  \<^verbatim>\<open>a.txt\<close>, first the bytes \<^verbatim>\<open>Hi\<close> and then the bytes \<^verbatim>\<open>Hey\<close>, leave the single file
  \<^verbatim>\<open>out/a_rx.txt\<close> holding \<^verbatim>\<open>Hey\<close>.
\<close>

theorem same_name_overwrites_counterexample:
  "disk (fst (add_chunk (rx_init ''out'' Map.empty) ''a.txt'' 0 1 ''SGk='')) =
     [''out/a_rx.txt'' \<mapsto> [72, 105]]
   \<and> disk (fst (add_chunk (fst (add_chunk (rx_init ''out'' Map.empty) ''a.txt'' 0 1 ''SGk=''))
                  ''a.txt'' 0 1 ''SGV5'')) =
     [''out/a_rx.txt'' \<mapsto> [72, 101, 121]]"
  by (simp add: add_chunk_unfold pending_file_chunks_def rx_init_def ordered_chunks_def py_range_def
      hi_decode hey_decode a_txt_stamped a_txt_tmp Let_def print_def join_path_def)

text \<open>
  Claim C4, amended.  A completed assembly of the \<^verbatim>\<open>FILECHUNK\<close> path, and a payload of
  the one-shot \<^verbatim>\<open>FILE\<close> path, is written to \<^verbatim>\<open>out_dir/<stem>_rx<suffix>\<close>, a name that
  depends on the transmitted file name only, and the write replaces what was stored under
  that name: after two completed transfers with the same transmitted name the disk differs
  from the disk before them at that one path, which holds the bytes of the second transfer.
\<close>

theorem persisted_name_overwrites:
  assumes "files s fname = None" and "cs1 \<noteq> []" and "cs2 \<noteq> []"
    and "b64decode (concat cs1) = Some raw1" and "b64decode (concat cs2) = Some raw2"
  shows "(let p = join_path (out_dir s) (stamped fname);
              s1 = fst (add_chunks s fname (int (length cs1)) (enumerate_chunks cs1));
              s2 = fst (add_chunks s1 fname (int (length cs2)) (enumerate_chunks cs2))
          in disk s1 = (disk s)(p \<mapsto> raw1) \<and> disk s2 = (disk s)(p \<mapsto> raw2) \<and> files s2 = files s)
       \<and> (\<forall>payload tag b64 raw.
             startswith payload ''FILE:'' \<and> py_split CHR '':'' 2 payload = [tag, fname, b64]
               \<and> b64decode b64 = Some raw
             \<longrightarrow> disk (fst (handle_full_payload s payload)) =
                   (disk s)(join_path (out_dir s) (stamped fname) \<mapsto> raw))"
proof -
  let ?p = "join_path (out_dir s) (stamped fname)"
  let ?s1 = "fst (add_chunks s fname (int (length cs1)) (enumerate_chunks cs1))"
  note one = add_chunks_in_order [OF assms(2) assms(4) assms(1)]
  have d1: "disk ?s1 = (disk s)(?p \<mapsto> raw1)" and f1: "files ?s1 fname = None"
    and o1: "out_dir ?s1 = out_dir s" and ff1: "files ?s1 = files s"
    using assms(1) by (simp_all add: one)
  note two = add_chunks_in_order [OF assms(3) assms(5) f1]
  have "disk (fst (add_chunks ?s1 fname (int (length cs2)) (enumerate_chunks cs2))) = (disk s)(?p \<mapsto> raw2)"
    and "files (fst (add_chunks ?s1 fname (int (length cs2)) (enumerate_chunks cs2))) = files s"
    unfolding two by (simp_all add: d1 o1 ff1)
  then show ?thesis using d1 by (simp add: Let_def handle_full_payload_file)
qed

theorem persisted_name_overwrites_witness:
  "disk (fst (add_chunks (rx_init ''out'' Map.empty) ''a.txt'' 1 [(0, ''SGk='')])) =
     [''out/a_rx.txt'' \<mapsto> [72, 105]]
   \<and> disk (fst (add_chunks (fst (add_chunks (rx_init ''out'' Map.empty) ''a.txt'' 1 [(0, ''SGk='')]))
                  ''a.txt'' 1 [(0, ''SGV5'')])) =
     [''out/a_rx.txt'' \<mapsto> [72, 101, 121]]
   \<and> disk (fst (handle_full_payload (rx_init ''out'' Map.empty) ''FILE:a.txt:SGV5'')) =
     [''out/a_rx.txt'' \<mapsto> [72, 101, 121]]"
proof -
  let ?s = "rx_init ''out'' Map.empty"
  have f: "files ?s ''a.txt'' = None" by (simp add: rx_init_def)
  have sp: "py_split CHR '':'' 2 ''FILE:a.txt:SGV5'' = [''FILE'', ''a.txt'', ''SGV5'']" by code_simp
  have sw: "startswith ''FILE:a.txt:SGV5'' ''FILE:''" by code_simp
  have e: "enumerate_chunks [''SGk=''] = [(0, ''SGk='')]" "enumerate_chunks [''SGV5''] = [(0, ''SGV5'')]"
    by (simp_all add: enumerate_chunks_def)
  have p: "join_path (out_dir ?s) (stamped ''a.txt'') = ''out/a_rx.txt''"
    by (simp add: a_txt_stamped join_path_def rx_init_def)
  have d: "disk ?s = Map.empty" by (simp add: rx_init_def)
  have n: "[''SGk=''] \<noteq> []" "[''SGV5''] \<noteq> []" by simp_all
  have d1: "b64decode (concat [''SGk='']) = Some [72, 105]" by (simp add: hi_decode)
  have d2: "b64decode (concat [''SGV5'']) = Some [72, 101, 121]" by (simp add: hey_decode)
  note t = persisted_name_overwrites [OF f n d1 d2, unfolded Let_def e p d]
  from t [THEN conjunct1]
  have a: "disk (fst (add_chunks ?s ''a.txt'' 1 [(0, ''SGk='')])) = [''out/a_rx.txt'' \<mapsto> [72, 105]]"
    and b: "disk (fst (add_chunks (fst (add_chunks ?s ''a.txt'' 1 [(0, ''SGk='')])) ''a.txt'' 1 [(0, ''SGV5'')])) =
       [''out/a_rx.txt'' \<mapsto> [72, 101, 121]]"
    by simp_all
  from t [THEN conjunct2] sw sp hey_decode
  have "disk (fst (handle_full_payload ?s ''FILE:a.txt:SGV5'')) = [''out/a_rx.txt'' \<mapsto> [72, 101, 121]]"
    by blast
  with a b show ?thesis by blast
qed

section \<open>The outbound paths\<close>

subsection \<open>The loop of \<^verbatim>\<open>send_file\<close>\<close>



lemma consume_timeout:
  "\<not> tx_event sl \<Longrightarrow> consume_tx_result (fold (\<lambda>(b, r) s. signal_tx s b r) [] sl) =
     (sl, \<lparr>ok = False, reason = ''timeout waiting for [TX DONE]''\<rparr>)"
  by (simp add: consume_tx_result_def)



subsection \<open>Evaluating the fragmented path on transfers of four and of ten chunks\<close>

lemma chunk_list_replicate:
  "0 < n \<Longrightarrow> chunk_list n (replicate (k * n) x) = replicate k (replicate n x)"
proof (induction k)
  case 0
  show ?case by simp
next
  case (Suc k)
  have "replicate (Suc k * n) x = replicate n x @ replicate (k * n) x"
    by (simp add: replicate_add)
  moreover have "replicate n x @ replicate (k * n) x \<noteq> []" using Suc.prems by simp
  ultimately show ?case using Suc by (simp add: chunk_list_Cons)
qed

lemma fifteen_hundred_chunks:
  "chunk_list 150 (replicate 1500 x) = replicate 10 (replicate 150 x)"
  using chunk_list_replicate [of 150 10 x] by simp

lemma replicate_ten: "replicate 10 c = [c, c, c, c, c, c, c, c, c, c]"
  by (simp add: numeral_eq_Suc)

lemma enumerate_ten:
  "enumerate_nat [c, c, c, c, c, c, c, c, c, c] =
     [(0, c), (1, c), (2, c), (3, c), (4, c), (5, c), (6, c), (7, c), (8, c), (9, c)]"
  by (simp add: enumerate_nat_def upt_rec)




lemma wait_failed: "wait_chunk [''[CMD] Send failed''] = Failed" by code_simp

text \<open>
  A transfer of ten chunks whose first four chunks get a failure sentinel: the early return
  is taken after the fourth chunk, whatever would follow, and six chunks are never sent.
\<close>

lemma scenario_C:
  "send_fragmented_data ''Node_2'' (replicate 1500 CHR ''x'') 1 0 1
       (replicate 4 (Lines [''[CMD] Send failed'']) @ post) =
     (\<lparr>total_chunks = 10, sent_chunks = 0, failed_chunks = 4, start_time = 0, end_time = 1,
        total_bytes = 1500\<rparr>,
      [Sent (Send_frag ''Node_2'' 1 0 10 (replicate 150 CHR ''x'')),
       Sent (Send_frag ''Node_2'' 1 1 10 (replicate 150 CHR ''x'')),
       Sent (Send_frag ''Node_2'' 1 2 10 (replicate 150 CHR ''x'')),
       Sent (Send_frag ''Node_2'' 1 3 10 (replicate 150 CHR ''x''))], False)"
proof -
  have r4: "replicate 4 e = [e, e, e, e]" for e :: frag_env by (simp add: numeral_eq_Suc)
  show ?thesis
    by (simp add: send_fragmented_data_def fifteen_hundred_chunks replicate_ten enumerate_ten r4
        next_frag_env_def too_many_failures_def new_stats_def Let_def wait_failed
        del: wait_chunk.simps)
qed

subsection \<open>A timeout of one chunk\<close>




subsection \<open>The 30% rule\<close>

text \<open>
  Claim C6 does not hold on the code.  A chunk whose command cannot be written is counted
  as failed and the loop goes to the next chunk with \<^verbatim>\<open>continue\<close>, past the test of the
  30% rule: in a transfer of ten chunks in which every write fails, all ten commands are
  attempted although the count of failed chunks passes 3 at the fourth.  A chunk that times
  out is counted only while the count is still zero: in a transfer of ten chunks that all
  time out the count stays at 1 and all ten commands are written.
\<close>

theorem failed_commands_skip_abort_check:
  "fst (send_fragmented_data ''Node_2'' (replicate 1500 CHR ''x'') 1 0 1 (replicate 10 Cmd_error)) =
     \<lparr>total_chunks = 10, sent_chunks = 0, failed_chunks = 10, start_time = 0, end_time = 1,
      total_bytes = 1500\<rparr>
   \<and> length (fst (snd (send_fragmented_data ''Node_2'' (replicate 1500 CHR ''x'') 1 0 1
        (replicate 10 Cmd_error)))) = 10
   \<and> snd (snd (send_fragmented_data ''Node_2'' (replicate 1500 CHR ''x'') 1 0 1
        (replicate 10 Cmd_error))) = False
   \<and> fst (send_fragmented_data ''Node_2'' (replicate 1500 CHR ''x'') 1 0 1 (replicate 10 (Lines []))) =
     \<lparr>total_chunks = 10, sent_chunks = 0, failed_chunks = 1, start_time = 0, end_time = 1,
      total_bytes = 1500\<rparr>
   \<and> length (fst (snd (send_fragmented_data ''Node_2'' (replicate 1500 CHR ''x'') 1 0 1
        (replicate 10 (Lines []))))) = 10
   \<and> snd (snd (send_fragmented_data ''Node_2'' (replicate 1500 CHR ''x'') 1 0 1
        (replicate 10 (Lines [])))) = False"
  by (simp add: send_fragmented_data_def fifteen_hundred_chunks replicate_ten enumerate_ten
      next_frag_env_def too_many_failures_def new_stats_def Let_def)

section \<open>The readers and malformed lines\<close>



lemma print_fields [simp]:
  "messages (print l s) = messages s" "files (print l s) = files s" "disk (print l s) = disk s"
  "out_dir (print l s) = out_dir s" "console (print l s) = console s @ [l]"
  by (simp_all add: print_def)







subsection \<open>Malformed lines are dropped\<close>




lemma frag_a_b_sentinel: "\<not> has_sentinel ''FRAG,a,b''"
  by (simp add: has_sentinel_def startswith_def)








section \<open>The derived statistics of a transfer\<close>



end
